theory Spec2Isabelle
  imports Main "HOL-Library.FSet" "HOL-Library.Product_Lexorder"
begin

section \<open>Cells\<close>

text \<open>A cell is the Python tuple \<open>(i, j)\<close> of two unbounded integers.\<close>

type_synonym cell = "int \<times> int"

section \<open>The board\<close>

text \<open>
  The class \<open>Minesweeper\<close>, as far as \<open>nearby_mines\<close> reads it: the dimensions and the
  board, a list of \<open>height\<close> rows of \<open>width\<close> truth values. \<open>nearby_mines\<close> reads
  \<open>board[i][j]\<close> only after the test \<open>0 <= i < height and 0 <= j < width\<close>, so the
  board is a function of the two indices. The field names carry the prefix \<open>g_\<close>
  because the agent below has fields \<open>height\<close> and \<open>width\<close> too.
\<close>

record minesweeper =
  g_height :: int
  g_width :: int
  board :: "int \<Rightarrow> int \<Rightarrow> bool"

text \<open>
  The two loops run over \<open>range(cell[0] - 1, cell[0] + 2)\<close> and
  \<open>range(cell[1] - 1, cell[1] + 2)\<close>.
\<close>

definition nearby_mines :: "minesweeper \<Rightarrow> cell \<Rightarrow> int" where
  "nearby_mines self c =
     fold (\<lambda>i cnt.
            fold (\<lambda>j cnt'.
                   if (i, j) = c then cnt'
                   else if 0 \<le> i \<and> i < g_height self \<and> 0 \<le> j \<and> j < g_width self
                     then (if board self i j then cnt' + 1 else cnt')
                   else cnt')
              [snd c - 1, snd c, snd c + 1] cnt)
       [fst c - 1, fst c, fst c + 1] 0"

section \<open>Sentences\<close>

text \<open>
  A \<open>Sentence\<close> object holds a Python set of cells (always finite, hence an \<open>fset\<close>)
  and an integer count. The constructor copies its argument with \<open>set(cells)\<close>, so no
  two sentences share a cell set and mutation in place is modelled by returning the
  updated value.
\<close>

record sentence =
  cells :: "cell fset"
  count :: int

definition Sentence :: "cell fset \<Rightarrow> int \<Rightarrow> sentence" where
  "Sentence cs n = \<lparr>cells = cs, count = n\<rparr>"

definition Sentence_eq :: "sentence \<Rightarrow> sentence \<Rightarrow> bool" where
  "Sentence_eq self other \<longleftrightarrow> cells self = cells other \<and> count self = count other"

text \<open>
  \<open>__hash__\<close> applies the interpreter's built-in hash to the tuple
  \<open>(frozenset(self.cells), self.count)\<close>; the built-in is a parameter here.
\<close>

definition Sentence_hash :: "(cell fset \<times> int \<Rightarrow> int) \<Rightarrow> sentence \<Rightarrow> int" where
  "Sentence_hash builtin_hash self = builtin_hash (cells self, count self)"

text \<open>The test \<open>x in xs\<close> on a list compares with \<open>__eq__\<close>.\<close>

definition Sentence_in :: "sentence \<Rightarrow> sentence list \<Rightarrow> bool" where
  "Sentence_in x xs = list_ex (\<lambda>y. Sentence_eq y x) xs"

definition known_mines :: "sentence \<Rightarrow> cell fset" where
  "known_mines self =
     (if int (fcard (cells self)) = count self \<and> fcard (cells self) > 0
      then cells self else {||})"

definition known_safes :: "sentence \<Rightarrow> cell fset" where
  "known_safes self = (if count self = 0 then cells self else {||})"

definition Sentence_mark_mine :: "sentence \<Rightarrow> cell \<Rightarrow> sentence" where
  "Sentence_mark_mine self c =
     (if c |\<in>| cells self
      then self\<lparr>cells := cells self |-| {|c|}, count := count self - 1\<rparr>
      else self)"

definition Sentence_mark_safe :: "sentence \<Rightarrow> cell \<Rightarrow> sentence" where
  "Sentence_mark_safe self c =
     (if c |\<in>| cells self
      then self\<lparr>cells := cells self |-| {|c|}\<rparr>
      else self)"

section \<open>The agent\<close>

text \<open>
  The fields of a \<open>MinesweeperAI\<close> object. The sentences of \<open>knowledge\<close> are distinct
  objects (each is built by a constructor call and appended once), so the list of
  objects is a list of values.
\<close>

record ai =
  height :: int
  width :: int
  moves_made :: "cell fset"
  mines :: "cell fset"
  safes :: "cell fset"
  knowledge :: "sentence list"

definition MinesweeperAI :: "int \<Rightarrow> int \<Rightarrow> ai" where
  "MinesweeperAI h w =
     \<lparr>height = h, width = w, moves_made = {||}, mines = {||}, safes = {||}, knowledge = []\<rparr>"

definition AI_mark_mine :: "ai \<Rightarrow> cell \<Rightarrow> ai" where
  "AI_mark_mine self c =
     self\<lparr>mines := finsert c (mines self),
          knowledge := map (\<lambda>sentence. Sentence_mark_mine sentence c) (knowledge self)\<rparr>"

definition AI_mark_safe :: "ai \<Rightarrow> cell \<Rightarrow> ai" where
  "AI_mark_safe self c =
     self\<lparr>safes := finsert c (safes self),
          knowledge := map (\<lambda>sentence. Sentence_mark_safe sentence c) (knowledge self)\<rparr>"

subsection \<open>addNewStement\<close>

text \<open>
  One pass of the body of the two nested loops over \<open>di\<close> and \<open>dj\<close>, on the local
  variables \<open>cellsNewStement\<close> and \<open>count\<close>. The tests are in the order of the source:
  the cell itself, known safe, known mine (which decrements the count), and only then
  the bounds, where the first coordinate is compared with \<open>width\<close> and the second with
  \<open>height\<close>.
\<close>

definition addNewStement_body ::
  "ai \<Rightarrow> cell \<Rightarrow> int \<times> int \<Rightarrow> cell fset \<times> int \<Rightarrow> cell fset \<times> int" where
  "addNewStement_body self c d acc =
     (case (c, d, acc) of ((i, j), (di, dj), (cellsNewStement, cnt)) \<Rightarrow>
        if di = 0 \<and> dj = 0 then (cellsNewStement, cnt)
        else if (i + di, j + dj) |\<in>| safes self then (cellsNewStement, cnt)
        else if (i + di, j + dj) |\<in>| mines self then (cellsNewStement, cnt - 1)
        else if i + di \<ge> 0 \<and> i + di < width self \<and> j + dj \<ge> 0 \<and> j + dj < height self
          then (finsert (i + di, j + dj) cellsNewStement, cnt)
        else (cellsNewStement, cnt))"

text \<open>The pairs \<open>(di, dj)\<close> in the order the loops \<open>range(-1,2)\<close> visit them.\<close>

definition offsets :: "(int \<times> int) list" where
  "offsets = [(-1, -1), (-1, 0), (-1, 1), (0, -1), (0, 0), (0, 1), (1, -1), (1, 0), (1, 1)]"

definition addNewStement :: "ai \<Rightarrow> cell \<Rightarrow> int \<Rightarrow> ai" where
  "addNewStement self c cnt0 =
     (case fold (addNewStement_body self c) offsets ({||}, cnt0) of
        (cellsNewStement, cnt) \<Rightarrow>
          self\<lparr>knowledge := knowledge self @ [Sentence cellsNewStement cnt]\<rparr>)"

subsection \<open>checkNewStement\<close>

text \<open>
  The body of the inner loop, on the local list \<open>new_statements\<close>. The candidate is
  built before the test \<open>difSentenceCount >= 0\<close>, and that test only builds the same
  candidate again.
\<close>

definition checkNewStement_body ::
  "sentence list \<Rightarrow> nat \<times> sentence \<Rightarrow> nat \<times> sentence \<Rightarrow> sentence list \<Rightarrow> sentence list" where
  "checkNewStement_body kb p q new_statements =
     (case (p, q) of ((i, sentence), (j, sentenceC)) \<Rightarrow>
        if i \<noteq> j \<and> cells sentence |\<subseteq>| cells sentenceC then
          (let difSentenceCells = cells sentenceC |-| cells sentence;
               difSentenceCount = count sentenceC - count sentence;
               new_sentence0 = Sentence difSentenceCells difSentenceCount;
               new_sentence = (if difSentenceCount \<ge> 0
                               then Sentence difSentenceCells difSentenceCount
                               else new_sentence0)
           in if \<not> Sentence_in new_sentence new_statements \<and> \<not> Sentence_in new_sentence kb
              then new_statements @ [new_sentence]
              else new_statements)
        else new_statements)"

definition checkNewStement :: "ai \<Rightarrow> ai" where
  "checkNewStement self =
     (let kb = knowledge self;
          new_statements =
            fold (\<lambda>p acc. fold (\<lambda>q acc'. checkNewStement_body kb p q acc') (enumerate 0 kb) acc)
              (enumerate 0 kb) []
      in self\<lparr>knowledge := kb @ new_statements\<rparr>)"

subsection \<open>update_knowledge\<close>

text \<open>
  The \<open>while change\<close> loop. Its body sets \<open>change = False\<close> and ends with the
  assignment to \<open>newSafes\<close>: the statements that set \<open>change = True\<close> are indented
  outside the loop. The loop variables are \<open>(safes, mines, newSafes)\<close>; they are unbound
  before the first round, which always runs since \<open>change\<close> starts as \<open>True\<close>.
\<close>

definition scan_body :: "sentence \<Rightarrow> cell fset \<times> cell fset \<Rightarrow> cell fset \<times> cell fset" where
  "scan_body sentence acc =
     (case acc of (safesL, minesL) \<Rightarrow>
        (safesL |\<union>| known_safes sentence, minesL |\<union>| known_mines sentence))"

function update_knowledge_while ::
  "bool \<Rightarrow> ai \<Rightarrow> cell fset \<times> cell fset \<times> cell fset \<Rightarrow> cell fset \<times> cell fset \<times> cell fset" where
  "update_knowledge_while change self vars =
     (if change then
        (case fold scan_body (knowledge self) ({||}, {||}) of
           (safesL, minesL) \<Rightarrow>
             update_knowledge_while False self (safesL, minesL, safesL |-| safes self))
      else vars)"
  by pat_completeness auto
termination
  by (relation "measure (\<lambda>(change, self, vars). if change then 1 else 0)") auto

declare update_knowledge_while.simps [simp del]

text \<open>
  A \<open>for\<close> loop over a Python set visits the elements in an order the language does
  not fix. The two loops below call \<open>mark_safe\<close> and \<open>mark_mine\<close>, whose effects
  commute (lemma \<open>mark_order_irrelevant\<close>), so the loops are written over the
  sorted list of the set.
\<close>

definition update_knowledge :: "ai \<Rightarrow> ai" where
  "update_knowledge self =
     (case update_knowledge_while True self ({||}, {||}, {||}) of
        (safesL, minesL, newSafes) \<Rightarrow>
          (let self1 = (if newSafes \<noteq> {||}
                        then fold (\<lambda>safe s. AI_mark_safe s safe) (sorted_list_of_fset newSafes) self
                        else self);
               newMines = minesL |-| mines self1;
               self2 = (if newMines \<noteq> {||}
                        then fold (\<lambda>mine s. AI_mark_mine s mine) (sorted_list_of_fset newMines) self1
                        else self1)
           in self2\<lparr>knowledge := filter (\<lambda>sentence. fcard (cells sentence) > 0) (knowledge self2)\<rparr>))"

subsection \<open>add_knowledge\<close>

definition add_knowledge :: "ai \<Rightarrow> cell \<Rightarrow> int \<Rightarrow> ai" where
  "add_knowledge self c cnt =
     (let self1 = self\<lparr>moves_made := finsert c (moves_made self)\<rparr>;
          self2 = AI_mark_safe self1 c;
          self3 = addNewStement self2 c cnt;
          self4 = update_knowledge self3;
          self5 = checkNewStement self4
      in update_knowledge self5)"

subsection \<open>Choosing a move\<close>

text \<open>
  \<open>next(iter(move))\<close> takes the first element in the interpreter's iteration order of
  the set, and raises \<open>StopIteration\<close> on an exhausted iterator. The iteration order
  is the parameter \<open>iter\<close>, which lists a set.
\<close>

datatype error = StopIteration

definition py_next :: "'a list \<Rightarrow> error + 'a" where
  "py_next xs = (case xs of [] \<Rightarrow> Inl StopIteration | x # _ \<Rightarrow> Inr x)"

definition lists_set :: "(cell fset \<Rightarrow> cell list) \<Rightarrow> bool" where
  "lists_set iter \<longleftrightarrow> (\<forall>A. fset_of_list (iter A) = A)"

text \<open>
  Both functions return the result together with the agent, which no statement of
  either body assigns to.
\<close>

definition make_safe_move :: "(cell fset \<Rightarrow> cell list) \<Rightarrow> ai \<Rightarrow> (error + cell option) \<times> ai" where
  "make_safe_move iter self =
     (let move = safes self |-| moves_made self |-| mines self
      in if fcard move > 0
         then (case py_next (iter move) of Inl e \<Rightarrow> (Inl e, self) | Inr m \<Rightarrow> (Inr (Some m), self))
         else (Inr None, self))"

text \<open>\<open>range(0, n)\<close> on integers.\<close>

definition range0 :: "int \<Rightarrow> int list" where
  "range0 n = [0..n - 1]"

definition allcells :: "ai \<Rightarrow> cell fset" where
  "allcells self =
     fold (\<lambda>i acc. fold (\<lambda>j acc'. finsert (i, j) acc') (range0 (height self)) acc)
       (range0 (width self)) {||}"

definition make_random_move :: "(cell fset \<Rightarrow> cell list) \<Rightarrow> ai \<Rightarrow> (error + cell option) \<times> ai" where
  "make_random_move iter self =
     (let move = (allcells self |-| mines self) |-| moves_made self
      in if fcard move > 0
         then (case py_next (iter move) of Inl e \<Rightarrow> (Inl e, self) | Inr m \<Rightarrow> (Inr (Some m), self))
         else (Inr None, self))"

subsection \<open>Set objects and their iteration order\<close>

text \<open>
  The definitions above take a Python set for the finite set of its elements, which is
  all that membership, \<open>add\<close>, \<open>remove\<close>, difference, \<open>len\<close> and equality read.
  \<open>next(iter(move))\<close> reads more: the order in which the interpreter iterates over the
  set object, which is decided by the internal layout of the object and not by its
  elements alone. For statements about that order a set object is a value of a type
  \<open>'l\<close> of layouts, and the interpreter is the record of its operations on them:
  \<open>set()\<close>, \<open>s.add(x)\<close>, \<open>a - b\<close> and iteration. The set objects that the fields
  \<open>moves_made\<close>, \<open>mines\<close> and \<open>safes\<close> of an agent hold are given beside the agent.
\<close>

record 'l interpreter =
  new_set :: 'l
  set_add :: "'l \<Rightarrow> cell \<Rightarrow> 'l"
  set_sub :: "'l \<Rightarrow> 'l \<Rightarrow> 'l"
  set_iter :: "'l \<Rightarrow> cell list"

record 'l set_objects =
  o_moves_made :: 'l
  o_mines :: 'l
  o_safes :: 'l

text \<open>
  The bodies of \<open>make_random_move\<close> and \<open>make_safe_move\<close> once more, on set objects:
  \<open>allcells\<close> starts as \<open>set()\<close> and receives the pairs by \<open>add\<close> in the order of the
  two loops, the differences are the interpreter's, and \<open>len(move) > 0\<close> holds when the
  iteration over \<open>move\<close> is not empty.
\<close>

definition allcells_obj :: "'l interpreter \<Rightarrow> ai \<Rightarrow> 'l" where
  "allcells_obj I self =
     fold (\<lambda>i acc. fold (\<lambda>j acc'. set_add I acc' (i, j)) (range0 (height self)) acc)
       (range0 (width self)) (new_set I)"

definition make_random_move_obj ::
  "'l interpreter \<Rightarrow> ai \<Rightarrow> 'l set_objects \<Rightarrow> (error + cell option) \<times> ai" where
  "make_random_move_obj I self os =
     (let move = set_sub I (set_sub I (allcells_obj I self) (o_mines os)) (o_moves_made os)
      in if length (set_iter I move) > 0
         then (case py_next (set_iter I move) of
                 Inl e \<Rightarrow> (Inl e, self) | Inr m \<Rightarrow> (Inr (Some m), self))
         else (Inr None, self))"

definition make_safe_move_obj ::
  "'l interpreter \<Rightarrow> ai \<Rightarrow> 'l set_objects \<Rightarrow> (error + cell option) \<times> ai" where
  "make_safe_move_obj I self os =
     (let move = set_sub I (set_sub I (o_safes os) (o_moves_made os)) (o_mines os)
      in if length (set_iter I move) > 0
         then (case py_next (set_iter I move) of
                 Inl e \<Rightarrow> (Inl e, self) | Inr m \<Rightarrow> (Inr (Some m), self))
         else (Inr None, self))"

section \<open>Auxiliary notions for the statements\<close>

text \<open>
  What the two move functions compute from the candidate set \<open>move\<close>, once the test
  \<open>len(move) > 0\<close> is read as non-emptiness.
\<close>

definition pick :: "(cell fset \<Rightarrow> cell list) \<Rightarrow> cell fset \<Rightarrow> error + cell option" where
  "pick iter move =
     (if move \<noteq> {||}
      then (case py_next (iter move) of Inl e \<Rightarrow> Inl e | Inr m \<Rightarrow> Inr (Some m))
      else Inr None)"

text \<open>
  The neighbours of a cell in the order the loops of \<open>addNewStement\<close> visit them, the
  bounds test of \<open>addNewStement\<close>, and the cell an offset leads to.
\<close>

definition neighbours :: "cell \<Rightarrow> cell list" where
  "neighbours c = map (\<lambda>d. (fst c + fst d, snd c + snd d)) (filter (\<lambda>d. d \<noteq> (0, 0)) offsets)"

definition in_grid :: "ai \<Rightarrow> cell \<Rightarrow> bool" where
  "in_grid self x \<longleftrightarrow> 0 \<le> fst x \<and> fst x < width self \<and> 0 \<le> snd x \<and> snd x < height self"

definition shift :: "cell \<Rightarrow> int \<times> int \<Rightarrow> cell" where
  "shift c d = (fst c + fst d, snd c + snd d)"

text \<open>
  A hazard is a cell of the board that holds a mine. A sentence is true of a board when
  its count is the number of hazards among its cells; an agent is sound for a board when
  its known mines are hazards, its known safes are not, and its sentences are true. An
  observation is truthful when its cell is no hazard and its count is what
  \<open>nearby_mines\<close> returns for the cell. \<open>observe\<close> is \<open>add_knowledge\<close> on a pair.
\<close>

definition hazard :: "minesweeper \<Rightarrow> cell \<Rightarrow> bool" where
  "hazard g c \<longleftrightarrow>
     0 \<le> fst c \<and> fst c < g_height g \<and> 0 \<le> snd c \<and> snd c < g_width g \<and> board g (fst c) (snd c)"

definition sentence_true :: "minesweeper \<Rightarrow> sentence \<Rightarrow> bool" where
  "sentence_true g s \<longleftrightarrow> count s = int (fcard (ffilter (hazard g) (cells s)))"

definition sound :: "minesweeper \<Rightarrow> ai \<Rightarrow> bool" where
  "sound g self \<longleftrightarrow>
     (\<forall>c. c |\<in>| mines self \<longrightarrow> hazard g c)
     \<and> (\<forall>c. c |\<in>| safes self \<longrightarrow> \<not> hazard g c)
     \<and> list_all (sentence_true g) (knowledge self)"

definition truthful :: "minesweeper \<Rightarrow> cell \<times> int \<Rightarrow> bool" where
  "truthful g ob \<longleftrightarrow> \<not> hazard g (fst ob) \<and> snd ob = nearby_mines g (fst ob)"

definition observe :: "cell \<times> int \<Rightarrow> ai \<Rightarrow> ai" where
  "observe ob self = add_knowledge self (fst ob) (snd ob)"

text \<open>One agent state extends another: the three sets only grow, the dimensions stay.\<close>

definition grows :: "ai \<Rightarrow> ai \<Rightarrow> bool" where
  "grows s t \<longleftrightarrow>
     moves_made s |\<subseteq>| moves_made t \<and> safes s |\<subseteq>| safes t \<and> mines s |\<subseteq>| mines t
     \<and> height t = height s \<and> width t = width s"

text \<open>
  The elements of a set object; the set objects of an agent; an interpreter whose
  operations are those of sets; and the property of the difference \<open>a - b\<close> that it
  reads the object \<open>b\<close> through its elements only, so that \<open>b\<close> decides the resulting
  object through its elements and not through its layout. CPython computes \<open>a - b\<close>
  either by adding to a new set the entries of \<open>a\<close> that are not in \<open>b\<close>, in the order
  of \<open>a\<close>, or by discarding the elements of \<open>b\<close> from a copy of \<open>a\<close>, and chooses
  between the two by the sizes; the layout of \<open>a\<close> matters to the result, that of
  \<open>b\<close> does not. \<open>insertion_order\<close> is one such interpreter: it iterates over a set in
  the order of insertion.
\<close>

definition elements :: "'l interpreter \<Rightarrow> 'l \<Rightarrow> cell fset" where
  "elements I l = fset_of_list (set_iter I l)"

definition objects_of :: "'l interpreter \<Rightarrow> 'l set_objects \<Rightarrow> ai \<Rightarrow> bool" where
  "objects_of I os self \<longleftrightarrow>
     elements I (o_moves_made os) = moves_made self
     \<and> elements I (o_mines os) = mines self
     \<and> elements I (o_safes os) = safes self"

definition implements_sets :: "'l interpreter \<Rightarrow> bool" where
  "implements_sets I \<longleftrightarrow>
     elements I (new_set I) = {||}
     \<and> (\<forall>l x. elements I (set_add I l x) = finsert x (elements I l))
     \<and> (\<forall>a b. elements I (set_sub I a b) = elements I a |-| elements I b)"

definition sub_reads_elements :: "'l interpreter \<Rightarrow> bool" where
  "sub_reads_elements I \<longleftrightarrow>
     (\<forall>a b b'. elements I b = elements I b' \<longrightarrow> set_sub I a b = set_sub I a b')"

definition insertion_order :: "cell list interpreter" where
  "insertion_order =
     \<lparr>new_set = [],
      set_add = (\<lambda>l x. if x \<in> set l then l else l @ [x]),
      set_sub = (\<lambda>a b. filter (\<lambda>x. x \<notin> set b) a),
      set_iter = (\<lambda>l. l)\<rparr>"

section \<open>Properties of sentences\<close>

text \<open>
  C4. \<open>known_mines\<close> returns the whole cell set when the count equals the number of
  cells and the set is not empty, and the empty set otherwise; \<open>known_safes\<close> returns
  the whole cell set when the count is zero, and the empty set otherwise; a sentence with
  \<open>0 < count < |cells|\<close> yields the empty set from both.
\<close>

theorem known_conclusions:
  "known_mines s = (if count s = int (fcard (cells s)) \<and> cells s \<noteq> {||} then cells s else {||})
   \<and> known_safes s = (if count s = 0 then cells s else {||})
   \<and> (0 < count s \<and> count s < int (fcard (cells s))
        \<longrightarrow> known_mines s = {||} \<and> known_safes s = {||})"
  by (auto simp: known_mines_def known_safes_def fcard_fempty)

theorem known_conclusions_witness:
  "0 < count \<lparr>cells = {|(0, 0), (0, 1)|}, count = 1\<rparr>
   \<and> count \<lparr>cells = {|(0, 0), (0, 1)|}, count = 1\<rparr>
       < int (fcard (cells \<lparr>cells = {|(0, 0), (0, 1)|}, count = 1\<rparr>))
   \<and> known_mines \<lparr>cells = {|(0, 0), (0, 1)|}, count = 1\<rparr> = {||}
   \<and> known_safes \<lparr>cells = {|(0, 0), (0, 1)|}, count = 1\<rparr> = {||}
   \<and> known_mines \<lparr>cells = {|(0, 0), (0, 1)|}, count = 2\<rparr> = {|(0, 0), (0, 1)|}
   \<and> known_safes \<lparr>cells = {|(0, 0), (0, 1)|}, count = 0\<rparr> = {|(0, 0), (0, 1)|}
   \<and> known_mines \<lparr>cells = {||}, count = 0\<rparr> = {||}"
proof -
  have c: "fcard {|(0::int, 0::int), (0, 1)|} = 2"
    by code_simp
  show ?thesis
    using known_conclusions [of "\<lparr>cells = {|(0, 0), (0, 1)|}, count = 1\<rparr>"]
      known_conclusions [of "\<lparr>cells = {|(0, 0), (0, 1)|}, count = 2\<rparr>"]
      known_conclusions [of "\<lparr>cells = {|(0, 0), (0, 1)|}, count = 0\<rparr>"]
      known_conclusions [of "\<lparr>cells = {||}, count = 0\<rparr>"]
    by (simp add: c)
qed

text \<open>
  C6. Two sentences are equal exactly when their cell sets and their counts are equal;
  the order (and repetition) in which the cells were put into the set plays no part;
  equal sentences have the same hash, and the membership test of a list does not tell
  them apart.
\<close>

theorem Sentence_eq_hash:
  "(Sentence_eq a b \<longleftrightarrow> cells a = cells b \<and> count a = count b)
   \<and> (set xs = set ys \<longrightarrow> Sentence_eq (Sentence (fset_of_list xs) n) (Sentence (fset_of_list ys) n))
   \<and> (Sentence_eq a b \<longrightarrow> Sentence_hash h a = Sentence_hash h b)
   \<and> (Sentence_eq a b \<longrightarrow> Sentence_in a kb = Sentence_in b kb)
   \<and> (Sentence_eq a b \<longrightarrow> Sentence_in a (kb @ [b]))"
proof -
  have "set xs = set ys \<Longrightarrow> fset_of_list xs = fset_of_list ys"
    by (simp add: fset_of_list.abs_eq)
  then show ?thesis
    by (auto simp: Sentence_eq_def Sentence_def Sentence_hash_def Sentence_in_def list_ex_iff)
qed

theorem Sentence_eq_hash_witness:
  "Sentence_eq (Sentence (fset_of_list [(0, 0), (0, 1)]) 1) (Sentence (fset_of_list [(0, 1), (0, 0), (0, 1)]) 1)
   \<and> Sentence_hash (\<lambda>(cs, n). int (fcard cs) + n) (Sentence (fset_of_list [(0, 0), (0, 1)]) 1)
     = Sentence_hash (\<lambda>(cs, n). int (fcard cs) + n) (Sentence (fset_of_list [(0, 1), (0, 0), (0, 1)]) 1)
   \<and> Sentence_in (Sentence (fset_of_list [(0, 0), (0, 1)]) 1) [Sentence (fset_of_list [(0, 1), (0, 0), (0, 1)]) 1]"
proof -
  let ?a = "Sentence (fset_of_list [(0, 0), (0, 1)]) 1"
  let ?b = "Sentence (fset_of_list [(0, 1), (0, 0), (0, 1)]) 1"
  let ?h = "\<lambda>(cs, n). int (fcard cs) + n"
  have s: "set [(0::int, 0::int), (0, 1)] = set [(0, 1), (0, 0), (0, 1)]"
    by auto
  have e: "Sentence_eq ?a ?b"
    using Sentence_eq_hash [of ?a ?b "[(0, 0), (0, 1)]" "[(0, 1), (0, 0), (0, 1)]" 1 ?h "[]"] s
    by blast
  show ?thesis
    using e Sentence_eq_hash [of ?a ?b "[]" "[]" 0 ?h "[]"]
    by simp
qed

text \<open>
  C9. \<open>Sentence.mark_mine\<close> removes a member cell and decrements the count, and
  \<open>Sentence.mark_safe\<close> removes a member cell and keeps the count; on a cell that is not
  a member both leave the sentence as it is, so applying either a second time changes
  nothing. The result differs from the receiver in its cell set and count only.
\<close>

theorem Sentence_mark:
  "(c |\<in>| cells s \<longrightarrow> Sentence_mark_mine s c = s\<lparr>cells := cells s |-| {|c|}, count := count s - 1\<rparr>)
   \<and> (c |\<notin>| cells s \<longrightarrow> Sentence_mark_mine s c = s)
   \<and> (c |\<in>| cells s \<longrightarrow> Sentence_mark_safe s c = s\<lparr>cells := cells s |-| {|c|}\<rparr>)
   \<and> (c |\<notin>| cells s \<longrightarrow> Sentence_mark_safe s c = s)
   \<and> Sentence_mark_mine (Sentence_mark_mine s c) c = Sentence_mark_mine s c
   \<and> Sentence_mark_safe (Sentence_mark_safe s c) c = Sentence_mark_safe s c"
  by (simp add: Sentence_mark_mine_def Sentence_mark_safe_def)

theorem Sentence_mark_witness:
  "(0, 1) |\<in>| cells \<lparr>cells = {|(0, 0), (0, 1)|}, count = 1\<rparr>
   \<and> Sentence_mark_mine \<lparr>cells = {|(0, 0), (0, 1)|}, count = 1\<rparr> (0, 1) = \<lparr>cells = {|(0, 0)|}, count = 0\<rparr>
   \<and> Sentence_mark_safe \<lparr>cells = {|(0, 0), (0, 1)|}, count = 1\<rparr> (0, 1) = \<lparr>cells = {|(0, 0)|}, count = 1\<rparr>
   \<and> (2, 2) |\<notin>| cells \<lparr>cells = {|(0, 0), (0, 1)|}, count = 1\<rparr>
   \<and> Sentence_mark_mine \<lparr>cells = {|(0, 0), (0, 1)|}, count = 1\<rparr> (2, 2) = \<lparr>cells = {|(0, 0), (0, 1)|}, count = 1\<rparr>
   \<and> Sentence_mark_safe \<lparr>cells = {|(0, 0), (0, 1)|}, count = 1\<rparr> (2, 2) = \<lparr>cells = {|(0, 0), (0, 1)|}, count = 1\<rparr>"
proof -
  let ?s = "\<lparr>cells = {|(0, 0), (0, 1)|}, count = 1\<rparr>"
  have "(0, 1) |\<in>| cells ?s"
    by code_simp
  moreover have "(2, 2) |\<notin>| cells ?s"
    by code_simp
  moreover have "?s\<lparr>cells := cells ?s |-| {|(0, 1)|}, count := count ?s - 1\<rparr> = \<lparr>cells = {|(0, 0)|}, count = 0\<rparr>"
    by code_simp
  moreover have "?s\<lparr>cells := cells ?s |-| {|(0, 1)|}\<rparr> = \<lparr>cells = {|(0, 0)|}, count = 1\<rparr>"
    by code_simp
  ultimately show ?thesis
    using Sentence_mark [of "(0, 1)" ?s] Sentence_mark [of "(2, 2)" ?s]
    by metis
qed

section \<open>Properties of the move functions\<close>

lemma fcard_pos_iff: "0 < fcard A \<longleftrightarrow> A \<noteq> {||}"
  by (simp add: zero_less_iff_neq_zero)

lemma lists_set_sorted: "lists_set sorted_list_of_fset"
  by (simp add: lists_set_def)

lemma py_next_lists_set:
  assumes "lists_set iter" "A \<noteq> {||}"
  shows "\<exists>c. py_next (iter A) = Inr c \<and> c |\<in>| A"
proof (cases "iter A")
  case Nil
  then have "fset_of_list (iter A) = {||}"
    by simp
  with assms show ?thesis
    by (simp add: lists_set_def)
next
  case (Cons x xs)
  then have "x |\<in>| fset_of_list (iter A)"
    by simp
  with assms(1) have "x |\<in>| A"
    by (simp add: lists_set_def)
  with Cons show ?thesis
    by (simp add: py_next_def)
qed

lemma make_safe_move_pick:
  "make_safe_move iter self = (pick iter (safes self |-| moves_made self |-| mines self), self)"
  unfolding make_safe_move_def Let_def fcard_pos_iff pick_def
  by (simp split: sum.splits)

lemma make_random_move_pick:
  "make_random_move iter self = (pick iter ((allcells self |-| mines self) |-| moves_made self), self)"
  unfolding make_random_move_def Let_def fcard_pos_iff pick_def
  by (simp split: sum.splits)

lemma pick_lists_set:
  assumes "lists_set iter"
  shows "(move \<noteq> {||} \<longrightarrow> (\<exists>c. pick iter move = Inr (Some c) \<and> c |\<in>| move))
    \<and> (move = {||} \<longrightarrow> pick iter move = Inr None)"
proof (cases "move = {||}")
  case True
  then show ?thesis
    by (simp add: pick_def)
next
  case False
  from py_next_lists_set [OF assms False] obtain c where "py_next (iter move) = Inr c" "c |\<in>| move"
    by blast
  with False show ?thesis
    by (simp add: pick_def)
qed

text \<open>
  C7. When the iteration order lists the set, \<open>make_safe_move\<close> returns a cell of
  \<open>safes - moves_made - mines\<close> if that set is not empty and \<open>None\<close> if it is, never
  an exception; the agent is returned as it was.
\<close>

theorem make_safe_move_result:
  assumes "lists_set iter"
  shows "snd (make_safe_move iter self) = self
    \<and> (safes self |-| moves_made self |-| mines self \<noteq> {||} \<longrightarrow>
         (\<exists>c. fst (make_safe_move iter self) = Inr (Some c)
              \<and> c |\<in>| safes self |-| moves_made self |-| mines self))
    \<and> (safes self |-| moves_made self |-| mines self = {||} \<longrightarrow>
         fst (make_safe_move iter self) = Inr None)"
  using pick_lists_set [OF assms, of "safes self |-| moves_made self |-| mines self"]
  by (simp add: make_safe_move_pick)

theorem make_safe_move_result_witness:
  "lists_set sorted_list_of_fset
   \<and> safes \<lparr>height = 2, width = 2, moves_made = {|(0, 0)|}, mines = {||}, safes = {|(0, 0), (0, 1)|}, knowledge = []\<rparr>
       |-| moves_made \<lparr>height = 2, width = 2, moves_made = {|(0, 0)|}, mines = {||}, safes = {|(0, 0), (0, 1)|}, knowledge = []\<rparr>
       |-| mines \<lparr>height = 2, width = 2, moves_made = {|(0, 0)|}, mines = {||}, safes = {|(0, 0), (0, 1)|}, knowledge = []\<rparr>
       \<noteq> {||}
   \<and> make_safe_move sorted_list_of_fset
        \<lparr>height = 2, width = 2, moves_made = {|(0, 0)|}, mines = {||}, safes = {|(0, 0), (0, 1)|}, knowledge = []\<rparr>
       = (Inr (Some (0, 1)),
          \<lparr>height = 2, width = 2, moves_made = {|(0, 0)|}, mines = {||}, safes = {|(0, 0), (0, 1)|}, knowledge = []\<rparr>)
   \<and> safes (MinesweeperAI 2 2) |-| moves_made (MinesweeperAI 2 2) |-| mines (MinesweeperAI 2 2) = {||}
   \<and> make_safe_move sorted_list_of_fset (MinesweeperAI 2 2) = (Inr None, MinesweeperAI 2 2)"
proof -
  let ?s = "\<lparr>height = 2, width = 2, moves_made = {|(0, 0)|}, mines = {||}, safes = {|(0, 0), (0, 1)|}, knowledge = []\<rparr>"
  have ne: "safes ?s |-| moves_made ?s |-| mines ?s = {|(0, 1)|}"
    by code_simp
  have em: "safes (MinesweeperAI 2 2) |-| moves_made (MinesweeperAI 2 2) |-| mines (MinesweeperAI 2 2) = {||}"
    by code_simp
  from make_safe_move_result [OF lists_set_sorted, of ?s] ne
  have "make_safe_move sorted_list_of_fset ?s = (Inr (Some (0, 1)), ?s)"
    by (metis finsert_not_fempty fsingletonE prod.collapse)
  moreover from make_safe_move_result [OF lists_set_sorted, of "MinesweeperAI 2 2"] em
  have "make_safe_move sorted_list_of_fset (MinesweeperAI 2 2) = (Inr None, MinesweeperAI 2 2)"
    by (metis prod.collapse)
  ultimately show ?thesis
    using lists_set_sorted ne em by simp
qed

lemma allcells_obj_cong:
  "width a = width b \<Longrightarrow> height a = height b \<Longrightarrow> allcells_obj I a = allcells_obj I b"
  by (simp add: allcells_obj_def)

lemma set_eq_of_fset_of_list:
  assumes "fset_of_list b = fset_of_list b'"
  shows "set b = set b'"
proof -
  from assms have "fset (fset_of_list b) = fset (fset_of_list b')"
    by simp
  then show ?thesis
    by (simp only: fset_of_list.rep_eq)
qed

lemma fset_of_list_eq_of_set: "set b = set b' \<Longrightarrow> fset_of_list b = fset_of_list b'"
  by (simp add: fset_of_list.abs_eq)

lemma insertion_order_simps:
  "new_set insertion_order = []"
  "set_add insertion_order l x = (if x \<in> set l then l else l @ [x])"
  "set_sub insertion_order a b = filter (\<lambda>x. x \<notin> set b) a"
  "set_iter insertion_order l = l"
  by (simp_all add: insertion_order_def)

lemma insertion_order_sets: "implements_sets insertion_order"
proof -
  have 0: "elements insertion_order (new_set insertion_order) = {||}"
    by (simp add: elements_def insertion_order_simps)
  have 1: "elements insertion_order (set_add insertion_order l x) = finsert x (elements insertion_order l)" for l x
    unfolding elements_def insertion_order_simps
    by (rule fset_eqI) (auto simp: fset_of_list.rep_eq)
  have 2: "elements insertion_order (set_sub insertion_order a b)
      = elements insertion_order a |-| elements insertion_order b" for a b
    unfolding elements_def insertion_order_simps
    by (rule fset_eqI) (auto simp: fset_of_list.rep_eq)
  from 0 1 2 show ?thesis
    unfolding implements_sets_def by blast
qed

lemma insertion_order_sub: "sub_reads_elements insertion_order"
  unfolding sub_reads_elements_def
proof (intro allI impI)
  fix a b b' :: "cell list"
  assume "elements insertion_order b = elements insertion_order b'"
  then have "fset_of_list b = fset_of_list b'"
    by (simp add: elements_def insertion_order_simps)
  then have "set b = set b'"
    by (rule set_eq_of_fset_of_list)
  then show "set_sub insertion_order a b = set_sub insertion_order a b'"
    by (simp add: insertion_order_simps)
qed

text \<open>
  C10. \<open>make_random_move\<close> consults no source of randomness, and its result is decided by
  \<open>width\<close>, \<open>height\<close> and the elements of \<open>mines\<close> and \<open>moves_made\<close>: it builds
  \<open>allcells\<close> itself, in an order that \<open>width\<close> and \<open>height\<close> fix, and the two
  differences read \<open>mines\<close> and \<open>moves_made\<close> through their elements. So two agents
  that agree on the two dimensions and on the elements of the two sets get the same
  result, whatever the layouts of their set objects and whatever else they hold.
\<close>

theorem make_random_move_obj_deterministic:
  assumes sub: "sub_reads_elements I"
    and os: "objects_of I osa a" "objects_of I osb b"
    and eq: "width a = width b" "height a = height b" "mines a = mines b" "moves_made a = moves_made b"
  shows "fst (make_random_move_obj I a osa) = fst (make_random_move_obj I b osb)"
proof -
  from os eq(3) have m: "elements I (o_mines osa) = elements I (o_mines osb)"
    by (simp add: objects_of_def)
  from os eq(4) have p: "elements I (o_moves_made osa) = elements I (o_moves_made osb)"
    by (simp add: objects_of_def)
  have c: "allcells_obj I a = allcells_obj I b"
    using eq(1,2) by (rule allcells_obj_cong)
  from sub m have 1: "set_sub I (allcells_obj I b) (o_mines osa) = set_sub I (allcells_obj I b) (o_mines osb)"
    unfolding sub_reads_elements_def by blast
  from sub p have 2: "set_sub I (set_sub I (allcells_obj I b) (o_mines osb)) (o_moves_made osa)
      = set_sub I (set_sub I (allcells_obj I b) (o_mines osb)) (o_moves_made osb)"
    unfolding sub_reads_elements_def by blast
  show ?thesis
    unfolding make_random_move_obj_def c 1 2 by (simp add: Let_def split: sum.splits)
qed

theorem make_random_move_obj_deterministic_witness:
  "sub_reads_elements insertion_order
   \<and> objects_of insertion_order
        \<lparr>o_moves_made = [], o_mines = [(0, 0), (1, 0)], o_safes = []\<rparr>
        \<lparr>height = 2, width = 2, moves_made = {||}, mines = {|(0, 0), (1, 0)|}, safes = {||}, knowledge = []\<rparr>
   \<and> objects_of insertion_order
        \<lparr>o_moves_made = [], o_mines = [(1, 0), (0, 0)], o_safes = [(1, 1)]\<rparr>
        \<lparr>height = 2, width = 2, moves_made = {||}, mines = {|(1, 0), (0, 0)|}, safes = {|(1, 1)|}, knowledge = []\<rparr>
   \<and> fst (make_random_move_obj insertion_order
        \<lparr>height = 2, width = 2, moves_made = {||}, mines = {|(0, 0), (1, 0)|}, safes = {||}, knowledge = []\<rparr>
        \<lparr>o_moves_made = [], o_mines = [(0, 0), (1, 0)], o_safes = []\<rparr>) = Inr (Some (0, 1))
   \<and> fst (make_random_move_obj insertion_order
        \<lparr>height = 2, width = 2, moves_made = {||}, mines = {|(1, 0), (0, 0)|}, safes = {|(1, 1)|}, knowledge = []\<rparr>
        \<lparr>o_moves_made = [], o_mines = [(1, 0), (0, 0)], o_safes = [(1, 1)]\<rparr>) = Inr (Some (0, 1))"
proof -
  let ?a = "\<lparr>height = 2, width = 2, moves_made = {||}, mines = {|(0, 0), (1, 0)|}, safes = {||}, knowledge = []\<rparr>"
  let ?b = "\<lparr>height = 2, width = 2, moves_made = {||}, mines = {|(1, 0), (0, 0)|}, safes = {|(1, 1)|}, knowledge = []\<rparr>"
  let ?osa = "\<lparr>o_moves_made = [], o_mines = [(0, 0), (1, 0)], o_safes = []\<rparr> :: cell list set_objects"
  let ?osb = "\<lparr>o_moves_made = [], o_mines = [(1, 0), (0, 0)], o_safes = [(1, 1)]\<rparr> :: cell list set_objects"
  have oa: "objects_of insertion_order ?osa ?a"
    by (simp add: objects_of_def elements_def insertion_order_simps)
  have ob: "objects_of insertion_order ?osb ?b"
    by (auto simp: objects_of_def elements_def insertion_order_simps)
  have eq: "width ?a = width ?b" "height ?a = height ?b" "mines ?a = mines ?b" "moves_made ?a = moves_made ?b"
    by auto
  have ra: "fst (make_random_move_obj insertion_order ?a ?osa) = Inr (Some (0, 1))"
    by code_simp
  from make_random_move_obj_deterministic [OF insertion_order_sub oa ob eq] ra
  have rb: "fst (make_random_move_obj insertion_order ?b ?osb) = Inr (Some (0, 1))"
    by simp
  from insertion_order_sub oa ob ra rb show ?thesis
    by simp
qed

text \<open>
  The same does not hold for \<open>make_safe_move\<close>, whose candidate set starts from the
  object \<open>safes\<close>: two objects with the same elements can give different moves.
\<close>

lemma make_safe_move_obj_order_dependent:
  "elements insertion_order [(0, 0), (0, 1)] = elements insertion_order [(0, 1), (0, 0)]
   \<and> fst (make_safe_move_obj insertion_order (MinesweeperAI 2 2)
        \<lparr>o_moves_made = [], o_mines = [], o_safes = [(0, 0), (0, 1)]\<rparr>) = Inr (Some (0, 0))
   \<and> fst (make_safe_move_obj insertion_order (MinesweeperAI 2 2)
        \<lparr>o_moves_made = [], o_mines = [], o_safes = [(0, 1), (0, 0)]\<rparr>) = Inr (Some (0, 1))"
  by code_simp

text \<open>
  For an interpreter whose operations are those of sets, \<open>make_random_move\<close> on set
  objects is \<open>make_random_move\<close> on finite sets under an iteration order that lists
  each set.
\<close>

lemma elements_fold_add:
  assumes "implements_sets I"
  shows "elements I (fold (\<lambda>x acc. set_add I acc (f x)) xs acc)
    = fold (\<lambda>x A. finsert (f x) A) xs (elements I acc)"
proof (induction xs arbitrary: acc)
  case Nil
  show ?case
    by simp
next
  case (Cons x xs)
  from assms have "elements I (set_add I acc (f x)) = finsert (f x) (elements I acc)"
    unfolding implements_sets_def by blast
  with Cons [of "set_add I acc (f x)"] show ?case
    by simp
qed

lemma elements_allcells_obj:
  assumes "implements_sets I"
  shows "elements I (allcells_obj I self) = allcells self"
proof -
  have "elements I (fold (\<lambda>i acc. fold (\<lambda>j acc'. set_add I acc' (i, j)) js acc) is acc)
    = fold (\<lambda>i A. fold (\<lambda>j A'. finsert (i, j) A') js A) is (elements I acc)" for js "is" acc
  proof (induction "is" arbitrary: acc)
    case Nil
    show ?case
      by simp
  next
    case (Cons i "is")
    from elements_fold_add [OF assms, of "Pair i" js acc] Cons [of "fold (\<lambda>j acc'. set_add I acc' (i, j)) js acc"]
    show ?case
      by simp
  qed
  moreover from assms have "elements I (new_set I) = {||}"
    unfolding implements_sets_def by blast
  ultimately show ?thesis
    by (simp add: allcells_obj_def allcells_def)
qed

lemma make_random_move_obj_refines:
  assumes I: "implements_sets I" and os: "objects_of I os self"
  shows "\<exists>iter. lists_set iter \<and> make_random_move_obj I self os = make_random_move iter self"
proof -
  define move where "move = set_sub I (set_sub I (allcells_obj I self) (o_mines os)) (o_moves_made os)"
  define M where "M = (allcells self |-| mines self) |-| moves_made self"
  define iter where "iter = (\<lambda>A. if A = M then set_iter I move else sorted_list_of_fset A)"
  from I have sub: "elements I (set_sub I a b) = elements I a |-| elements I b" for a b
    unfolding implements_sets_def by blast
  from os have "elements I (o_mines os) = mines self" "elements I (o_moves_made os) = moves_made self"
    by (simp_all add: objects_of_def)
  then have M: "fset_of_list (set_iter I move) = M"
    using sub elements_allcells_obj [OF I, of self]
    by (simp add: move_def M_def elements_def [symmetric])
  then have "lists_set iter"
    by (simp add: lists_set_def iter_def)
  moreover from M have "(M \<noteq> {||}) = (0 < length (set_iter I move))"
    by (cases "set_iter I move") auto
  then have "make_random_move_obj I self os = make_random_move iter self"
    by (simp add: make_random_move_pick pick_def make_random_move_obj_def Let_def iter_def
        move_def [symmetric] M_def [symmetric] split: sum.splits)
  ultimately show ?thesis
    by blast
qed

text \<open>
  C8. \<open>make_random_move\<close> enumerates the pairs \<open>(i, j)\<close> with \<open>i\<close> below \<open>width\<close> and
  \<open>j\<close> below \<open>height\<close>. On a grid of height 1 and width 2 whose cell \<open>(0, 0)\<close> has
  been played it returns \<open>(1, 0)\<close>, whatever the iteration order: a cell in row 1 of a
  grid with one row, where the only unplayed cell of the grid is \<open>(0, 1)\<close>.
\<close>

theorem make_random_move_off_grid:
  assumes "lists_set iter"
  shows "make_random_move iter (MinesweeperAI 1 2\<lparr>moves_made := {|(0, 0)|}\<rparr>)
     = (Inr (Some (1, 0)), MinesweeperAI 1 2\<lparr>moves_made := {|(0, 0)|}\<rparr>)"
proof -
  let ?s = "MinesweeperAI 1 2\<lparr>moves_made := {|(0, 0)|}\<rparr>"
  have m: "(allcells ?s |-| mines ?s) |-| moves_made ?s = {|(1, 0)|}"
    by code_simp
  from pick_lists_set [OF assms, of "{|(1, 0)|}"] have "pick iter {|(1, 0)|} = Inr (Some (1, 0))"
    by auto
  with m show ?thesis
    by (simp only: make_random_move_pick)
qed

theorem make_random_move_off_grid_witness:
  "lists_set sorted_list_of_fset
   \<and> make_random_move sorted_list_of_fset (MinesweeperAI 1 2\<lparr>moves_made := {|(0, 0)|}\<rparr>)
     = (Inr (Some (1, 0)), MinesweeperAI 1 2\<lparr>moves_made := {|(0, 0)|}\<rparr>)"
  using make_random_move_off_grid [OF lists_set_sorted] lists_set_sorted by simp

section \<open>Observations on concrete grids\<close>

text \<open>
  C3. On a grid of height 2 and width 1 the cell \<open>(0, 0)\<close> has one neighbour inside the
  grid, \<open>(1, 0)\<close>. \<open>addNewStement\<close> compares the first coordinate with \<open>width\<close> and
  the second with \<open>height\<close>, and builds the sentence over \<open>(0, 1)\<close> instead, a cell
  outside the grid.
\<close>

theorem addNewStement_bounds_swapped:
  "addNewStement (MinesweeperAI 2 1) (0, 0) 1
     = \<lparr>height = 2, width = 1, moves_made = {||}, mines = {||}, safes = {||},
        knowledge = [\<lparr>cells = {|(0, 1)|}, count = 1\<rparr>]\<rparr>"
  by code_simp

text \<open>
  C1. On a 3 by 3 grid with one mine, at \<open>(0, 0)\<close>, the observations \<open>((0, 1), 1)\<close>,
  \<open>((1, 0), 1)\<close> and \<open>((1, 1), 1)\<close> leave three copies of the sentence
  \<open>{(0, 0)} = 1\<close> in the knowledge base and no known mine: \<open>update_knowledge\<close> makes
  one scan only. A further call of \<open>update_knowledge\<close> marks \<open>(0, 0)\<close> as a mine and
  empties the knowledge base.
\<close>

theorem add_knowledge_not_quiescent:
  "add_knowledge (add_knowledge (add_knowledge (MinesweeperAI 3 3) (0, 1) 1) (1, 0) 1) (1, 1) 1
     = \<lparr>height = 3, width = 3, moves_made = {|(0, 1), (1, 0), (1, 1)|}, mines = {||},
        safes = {|(0, 1), (0, 2), (1, 0), (1, 1), (1, 2), (2, 0), (2, 1), (2, 2)|},
        knowledge = [\<lparr>cells = {|(0, 0)|}, count = 1\<rparr>, \<lparr>cells = {|(0, 0)|}, count = 1\<rparr>,
                     \<lparr>cells = {|(0, 0)|}, count = 1\<rparr>]\<rparr>
   \<and> update_knowledge
        (add_knowledge (add_knowledge (add_knowledge (MinesweeperAI 3 3) (0, 1) 1) (1, 0) 1) (1, 1) 1)
     = \<lparr>height = 3, width = 3, moves_made = {|(0, 1), (1, 0), (1, 1)|}, mines = {|(0, 0)|},
        safes = {|(0, 1), (0, 2), (1, 0), (1, 1), (1, 2), (2, 0), (2, 1), (2, 2)|},
        knowledge = []\<rparr>"
  by code_simp

text \<open>
  C2. After the observations \<open>((0, 1), 2)\<close> and \<open>((1, 1), 1)\<close> on a 3 by 3 grid the
  first sentence is a subset of the second with the larger count, and
  \<open>checkNewStement\<close> appends their difference with the count \<open>-1\<close>: the test
  \<open>difSentenceCount >= 0\<close> guards nothing, and no error is raised.
\<close>

theorem checkNewStement_negative_count:
  "add_knowledge (add_knowledge (MinesweeperAI 3 3) (0, 1) 2) (1, 1) 1
     = \<lparr>height = 3, width = 3, moves_made = {|(0, 1), (1, 1)|}, mines = {||},
        safes = {|(0, 1), (1, 1)|},
        knowledge = [\<lparr>cells = {|(0, 0), (0, 2), (1, 0), (1, 2)|}, count = 2\<rparr>,
                     \<lparr>cells = {|(0, 0), (0, 2), (1, 0), (1, 2), (2, 0), (2, 1), (2, 2)|}, count = 1\<rparr>,
                     \<lparr>cells = {|(2, 0), (2, 1), (2, 2)|}, count = - 1\<rparr>]\<rparr>"
  by code_simp

text \<open>
  C5. On a board of height 1 and width 4 with one mine, at \<open>(0, 2)\<close>, the observations
  \<open>((0, 1), 1)\<close> and \<open>((0, 0), 0)\<close> are truthful. \<open>addNewStement\<close> compares the first
  coordinate with \<open>width\<close> and the second with \<open>height\<close>, so the first observation
  gives \<open>{(0, 0), (1, 0)} = 1\<close> instead of \<open>{(0, 0), (0, 2)} = 1\<close>; the second turns it
  into \<open>{(1, 0)} = 1\<close> and adds \<open>{(1, 0)} = 0\<close>, and one scan of \<open>update_knowledge\<close>
  puts \<open>(1, 0)\<close> into both \<open>safes\<close> and \<open>mines\<close>.
\<close>

theorem add_knowledge_truthful_overlap:
  "truthful \<lparr>g_height = 1, g_width = 4, board = (\<lambda>i j. i = 0 \<and> j = 2)\<rparr> ((0, 1), 1)
   \<and> truthful \<lparr>g_height = 1, g_width = 4, board = (\<lambda>i j. i = 0 \<and> j = 2)\<rparr> ((0, 0), 0)
   \<and> add_knowledge (MinesweeperAI 1 4) (0, 1) 1
     = \<lparr>height = 1, width = 4, moves_made = {|(0, 1)|}, mines = {||}, safes = {|(0, 1)|},
        knowledge = [\<lparr>cells = {|(0, 0), (1, 0)|}, count = 1\<rparr>]\<rparr>
   \<and> add_knowledge (add_knowledge (MinesweeperAI 1 4) (0, 1) 1) (0, 0) 0
     = \<lparr>height = 1, width = 4, moves_made = {|(0, 0), (0, 1)|}, mines = {|(1, 0)|},
        safes = {|(0, 0), (0, 1), (1, 0)|}, knowledge = []\<rparr>"
  by code_simp

section \<open>Soundness for truthful observations\<close>

subsection \<open>The counts of the board\<close>

lemma neighbours_eq:
  "neighbours (i, j) = [(i - 1, j - 1), (i - 1, j), (i - 1, j + 1), (i, j - 1), (i, j + 1),
     (i + 1, j - 1), (i + 1, j), (i + 1, j + 1)]"
  by (simp add: neighbours_def offsets_def)

lemma distinct_neighbours: "distinct (neighbours c)"
  by (cases c) (simp add: neighbours_eq)

lemma self_notin_neighbours: "c \<notin> set (neighbours c)"
  by (cases c) (simp add: neighbours_eq)

lemma nearby_inner:
  "fold (\<lambda>j cnt'. if (i, j) = c then cnt'
                   else if 0 \<le> i \<and> i < g_height g \<and> 0 \<le> j \<and> j < g_width g
                     then (if board g i j then cnt' + 1 else cnt')
                   else cnt') js cnt
   = cnt + int (length (filter (\<lambda>x. x \<noteq> c \<and> hazard g x) (map (Pair i) js)))"
  by (induction js arbitrary: cnt) (auto simp: hazard_def)

lemma nearby_outer:
  "fold (\<lambda>i cnt. fold (\<lambda>j cnt'. if (i, j) = c then cnt'
                   else if 0 \<le> i \<and> i < g_height g \<and> 0 \<le> j \<and> j < g_width g
                     then (if board g i j then cnt' + 1 else cnt')
                   else cnt') js cnt) is cnt0
   = cnt0 + int (length (filter (\<lambda>x. x \<noteq> c \<and> hazard g x) (concat (map (\<lambda>i. map (Pair i) js) is))))"
  by (induction "is" arbitrary: cnt0) (simp_all add: nearby_inner)

lemma nearby_mines_neighbours:
  "nearby_mines g c = int (length (filter (hazard g) (neighbours c)))"
proof (cases c)
  case (Pair i j)
  have "filter (\<lambda>x. x \<noteq> (i, j) \<and> hazard g x)
          (concat (map (\<lambda>i'. map (Pair i') [j - 1, j, j + 1]) [i - 1, i, i + 1]))
        = filter (hazard g) (neighbours (i, j))"
    by (simp add: neighbours_eq)
  then show ?thesis
    unfolding nearby_mines_def nearby_outer Pair by simp
qed

subsection \<open>Marking cells\<close>

lemma sentence_true_mark_safe:
  assumes "sentence_true g s" "\<not> hazard g c"
  shows "sentence_true g (Sentence_mark_safe s c)"
proof -
  from assms(2) have "ffilter (hazard g) (cells s |-| {|c|}) = ffilter (hazard g) (cells s)"
    by auto
  with assms(1) show ?thesis
    by (simp add: sentence_true_def Sentence_mark_safe_def)
qed

lemma sentence_true_mark_mine:
  assumes "sentence_true g s" "hazard g c"
  shows "sentence_true g (Sentence_mark_mine s c)"
proof (cases "c |\<in>| cells s")
  case False
  with assms(1) show ?thesis
    by (simp add: Sentence_mark_mine_def)
next
  case True
  have eq: "ffilter (hazard g) (cells s |-| {|c|}) = ffilter (hazard g) (cells s) |-| {|c|}"
    by auto
  from True assms(2) have "c |\<in>| ffilter (hazard g) (cells s)"
    by simp
  then have "Suc (fcard (ffilter (hazard g) (cells s) |-| {|c|})) = fcard (ffilter (hazard g) (cells s))"
    by (rule fcard_Suc_fminus1)
  with assms(1) True eq show ?thesis
    by (simp add: sentence_true_def Sentence_mark_mine_def)
qed

lemma sound_mark_safe:
  assumes "sound g s" "\<not> hazard g c"
  shows "sound g (AI_mark_safe s c)"
  using assms
  by (auto simp: sound_def AI_mark_safe_def list_all_iff intro: sentence_true_mark_safe)

lemma sound_mark_mine:
  assumes "sound g s" "hazard g c"
  shows "sound g (AI_mark_mine s c)"
  using assms
  by (auto simp: sound_def AI_mark_mine_def list_all_iff intro: sentence_true_mark_mine)

lemma sound_fold_mark_safe:
  assumes "sound g s" "\<forall>c\<in>set xs. \<not> hazard g c"
  shows "sound g (fold (\<lambda>safe s. AI_mark_safe s safe) xs s)"
  using assms by (induction xs arbitrary: s) (simp_all add: sound_mark_safe)

lemma sound_fold_mark_mine:
  assumes "sound g s" "\<forall>c\<in>set xs. hazard g c"
  shows "sound g (fold (\<lambda>mine s. AI_mark_mine s mine) xs s)"
  using assms by (induction xs arbitrary: s) (simp_all add: sound_mark_mine)

lemma sound_moves_made: "sound g (s\<lparr>moves_made := m\<rparr>) = sound g s"
  by (simp add: sound_def)

lemma known_safes_sound:
  assumes "sentence_true g s" "c |\<in>| known_safes s"
  shows "\<not> hazard g c"
proof
  assume h: "hazard g c"
  from assms(2) have z: "count s = 0" and m: "c |\<in>| cells s"
    by (auto simp: known_safes_def split: if_splits)
  from z assms(1) have "ffilter (hazard g) (cells s) = {||}"
    by (simp add: sentence_true_def)
  with m h show False
    by (metis ffmember_filter fempty_iff)
qed

lemma known_mines_sound:
  assumes "sentence_true g s" "c |\<in>| known_mines s"
  shows "hazard g c"
proof -
  from assms(2) have z: "int (fcard (cells s)) = count s" and m: "c |\<in>| cells s"
    by (auto simp: known_mines_def split: if_splits)
  from z assms(1) have "fcard (cells s) \<le> fcard (ffilter (hazard g) (cells s))"
    by (simp add: sentence_true_def)
  moreover have "ffilter (hazard g) (cells s) |\<subseteq>| cells s"
    by auto
  ultimately have "ffilter (hazard g) (cells s) = cells s"
    by (rule fcard_seteq [rotated])
  with m show ?thesis
    by (metis ffmember_filter)
qed

lemma fold_scan_body_safes:
  "c |\<in>| fst (fold scan_body ks acc) \<longleftrightarrow> c |\<in>| fst acc \<or> (\<exists>k\<in>set ks. c |\<in>| known_safes k)"
  by (induction ks arbitrary: acc) (auto simp: scan_body_def split: prod.splits)

lemma fold_scan_body_mines:
  "c |\<in>| snd (fold scan_body ks acc) \<longleftrightarrow> c |\<in>| snd acc \<or> (\<exists>k\<in>set ks. c |\<in>| known_mines k)"
  by (induction ks arbitrary: acc) (auto simp: scan_body_def split: prod.splits)

lemma update_knowledge_while_True:
  "update_knowledge_while True self vars =
     (fst (fold scan_body (knowledge self) ({||}, {||})),
      snd (fold scan_body (knowledge self) ({||}, {||})),
      fst (fold scan_body (knowledge self) ({||}, {||})) |-| safes self)"
  by (simp add: update_knowledge_while.simps [of True] update_knowledge_while.simps [of False]
      split: prod.splits)

lemma sound_filter:
  assumes "sound g s"
  shows "sound g (s\<lparr>knowledge := filter P (knowledge s)\<rparr>)"
  using assms by (simp add: sound_def list_all_iff)

lemma sound_update_knowledge:
  assumes "sound g s"
  shows "sound g (update_knowledge s)"
proof -
  define safesL where "safesL = fst (fold scan_body (knowledge s) ({||}, {||}))"
  define minesL where "minesL = snd (fold scan_body (knowledge s) ({||}, {||}))"
  define newSafes where "newSafes = safesL |-| safes s"
  define s1 where "s1 = (if newSafes \<noteq> {||}
      then fold (\<lambda>safe s. AI_mark_safe s safe) (sorted_list_of_fset newSafes) s else s)"
  define newMines where "newMines = minesL |-| mines s1"
  define s2 where "s2 = (if newMines \<noteq> {||}
      then fold (\<lambda>mine s. AI_mark_mine s mine) (sorted_list_of_fset newMines) s1 else s1)"
  have true: "\<forall>k\<in>set (knowledge s). sentence_true g k"
    using assms by (simp add: sound_def list_all_iff)
  have "\<not> hazard g c" if "c \<in> set (sorted_list_of_fset newSafes)" for c
  proof -
    from that have "c |\<in>| safesL"
      by (simp add: newSafes_def)
    then obtain k where "k \<in> set (knowledge s)" "c |\<in>| known_safes k"
      by (auto simp: safesL_def fold_scan_body_safes)
    with true show ?thesis
      using known_safes_sound [of g k c] by blast
  qed
  then have "\<forall>c\<in>set (sorted_list_of_fset newSafes). \<not> hazard g c"
    by blast
  with assms have 1: "sound g s1"
    by (simp add: s1_def sound_fold_mark_safe)
  have "hazard g c" if "c \<in> set (sorted_list_of_fset newMines)" for c
  proof -
    from that have "c |\<in>| minesL"
      by (simp add: newMines_def)
    then obtain k where "k \<in> set (knowledge s)" "c |\<in>| known_mines k"
      by (auto simp: minesL_def fold_scan_body_mines)
    with true show ?thesis
      using known_mines_sound [of g k c] by blast
  qed
  then have "\<forall>c\<in>set (sorted_list_of_fset newMines). hazard g c"
    by blast
  with 1 have 2: "sound g s2"
    by (simp add: s2_def sound_fold_mark_mine)
  have "update_knowledge s = s2\<lparr>knowledge := filter (\<lambda>sentence. fcard (cells sentence) > 0) (knowledge s2)\<rparr>"
    by (simp add: update_knowledge_def update_knowledge_while_True Let_def s2_def newMines_def s1_def
        newSafes_def safesL_def minesL_def)
  with 2 show ?thesis
    by (simp add: sound_filter)
qed

text \<open>The marking loops of \<open>update_knowledge\<close> do not depend on the order of iteration.\<close>

lemma fold_Sentence_mark_safe:
  "fold (\<lambda>c k. Sentence_mark_safe k c) xs k = k\<lparr>cells := cells k |-| fset_of_list xs\<rparr>"
proof (induction xs arbitrary: k)
  case Nil
  show ?case
    by simp
next
  case (Cons x xs)
  let ?k = "Sentence_mark_safe k x"
  have c: "cells ?k = cells k |-| {|x|}"
    by (simp add: Sentence_mark_safe_def)
  have "cells k |-| {|x|} |-| fset_of_list xs = cells k |-| fset_of_list (x # xs)"
    by auto
  then have "?k\<lparr>cells := cells ?k |-| fset_of_list xs\<rparr> = k\<lparr>cells := cells k |-| fset_of_list (x # xs)\<rparr>"
    unfolding c by (simp add: Sentence_mark_safe_def)
  moreover have "fold (\<lambda>c k. Sentence_mark_safe k c) (x # xs) k = fold (\<lambda>c k. Sentence_mark_safe k c) xs ?k"
    by simp
  ultimately show ?case
    by (simp only: Cons)
qed

lemma fold_Sentence_mark_mine:
  "fold (\<lambda>c k. Sentence_mark_mine k c) xs k =
     k\<lparr>cells := cells k |-| fset_of_list xs,
       count := count k - int (fcard (cells k |\<inter>| fset_of_list xs))\<rparr>"
proof (induction xs arbitrary: k)
  case Nil
  show ?case
    by (simp add: fcard_fempty)
next
  case (Cons x xs)
  let ?X = "fset_of_list xs"
  let ?k = "Sentence_mark_mine k x"
  have step: "fold (\<lambda>c k. Sentence_mark_mine k c) (x # xs) k
      = ?k\<lparr>cells := cells ?k |-| ?X, count := count ?k - int (fcard (cells ?k |\<inter>| ?X))\<rparr>"
    by (simp only: fold_Cons comp_apply Cons)
  show ?case
  proof (cases "x |\<in>| cells k")
    case False
    then have k: "?k = k"
      by (simp add: Sentence_mark_mine_def)
    from False have "cells k |-| ?X = cells k |-| fset_of_list (x # xs)"
      "cells k |\<inter>| ?X = cells k |\<inter>| fset_of_list (x # xs)"
      by auto
    then show ?thesis
      unfolding step k by (simp only:)
  next
    case True
    then have k: "?k = k\<lparr>cells := cells k |-| {|x|}, count := count k - 1\<rparr>"
      by (simp add: Sentence_mark_mine_def)
    have 1: "cells k |-| {|x|} |-| ?X = cells k |-| fset_of_list (x # xs)"
      by auto
    from True have "cells k |\<inter>| fset_of_list (x # xs) = finsert x ((cells k |-| {|x|}) |\<inter>| ?X)"
      by auto
    moreover have "x |\<notin>| (cells k |-| {|x|}) |\<inter>| ?X"
      by simp
    ultimately have 2: "fcard (cells k |\<inter>| fset_of_list (x # xs)) = Suc (fcard ((cells k |-| {|x|}) |\<inter>| ?X))"
      using fcard_finsert_disjoint [of x "(cells k |-| {|x|}) |\<inter>| ?X"] by simp
    show ?thesis
      unfolding step k by (simp add: 1 2 del: fset_of_list_simps)
  qed
qed

lemma fold_AI_mark_safe_sentences:
  "fold (\<lambda>safe s. AI_mark_safe s safe) xs s =
     s\<lparr>safes := safes s |\<union>| fset_of_list xs,
       knowledge := map (fold (\<lambda>c k. Sentence_mark_safe k c) xs) (knowledge s)\<rparr>"
proof (induction xs arbitrary: s)
  case Nil
  show ?case
    by simp
next
  case (Cons x xs)
  let ?s = "AI_mark_safe s x"
  have step: "fold (\<lambda>safe s. AI_mark_safe s safe) (x # xs) s
      = ?s\<lparr>safes := safes ?s |\<union>| fset_of_list xs,
           knowledge := map (fold (\<lambda>c k. Sentence_mark_safe k c) xs) (knowledge ?s)\<rparr>"
    by (simp only: fold_Cons comp_apply Cons)
  have "finsert x (safes s) |\<union>| fset_of_list xs = safes s |\<union>| fset_of_list (x # xs)"
    by auto
  then show ?case
    unfolding step by (simp add: AI_mark_safe_def comp_def del: fset_of_list_simps)
qed

lemma fold_AI_mark_mine_sentences:
  "fold (\<lambda>mine s. AI_mark_mine s mine) xs s =
     s\<lparr>mines := mines s |\<union>| fset_of_list xs,
       knowledge := map (fold (\<lambda>c k. Sentence_mark_mine k c) xs) (knowledge s)\<rparr>"
proof (induction xs arbitrary: s)
  case Nil
  show ?case
    by simp
next
  case (Cons x xs)
  let ?s = "AI_mark_mine s x"
  have step: "fold (\<lambda>mine s. AI_mark_mine s mine) (x # xs) s
      = ?s\<lparr>mines := mines ?s |\<union>| fset_of_list xs,
           knowledge := map (fold (\<lambda>c k. Sentence_mark_mine k c) xs) (knowledge ?s)\<rparr>"
    by (simp only: fold_Cons comp_apply Cons)
  have "finsert x (mines s) |\<union>| fset_of_list xs = mines s |\<union>| fset_of_list (x # xs)"
    by auto
  then show ?case
    unfolding step by (simp add: AI_mark_mine_def comp_def del: fset_of_list_simps)
qed

lemma fold_AI_mark_safe:
  "fold (\<lambda>safe s. AI_mark_safe s safe) xs s =
     s\<lparr>safes := safes s |\<union>| fset_of_list xs,
       knowledge := map (\<lambda>k. k\<lparr>cells := cells k |-| fset_of_list xs\<rparr>) (knowledge s)\<rparr>"
  by (simp add: fold_AI_mark_safe_sentences fold_Sentence_mark_safe)

lemma fold_AI_mark_mine:
  "fold (\<lambda>mine s. AI_mark_mine s mine) xs s =
     s\<lparr>mines := mines s |\<union>| fset_of_list xs,
       knowledge := map (\<lambda>k. k\<lparr>cells := cells k |-| fset_of_list xs,
                               count := count k - int (fcard (cells k |\<inter>| fset_of_list xs))\<rparr>)
                      (knowledge s)\<rparr>"
  by (simp add: fold_AI_mark_mine_sentences fold_Sentence_mark_mine)

lemma mark_order_irrelevant:
  assumes "fset_of_list xs = fset_of_list ys"
  shows "fold (\<lambda>safe s. AI_mark_safe s safe) xs s = fold (\<lambda>safe s. AI_mark_safe s safe) ys s"
    and "fold (\<lambda>mine s. AI_mark_mine s mine) xs s = fold (\<lambda>mine s. AI_mark_mine s mine) ys s"
  by (simp_all add: fold_AI_mark_safe fold_AI_mark_mine assms)

subsection \<open>The sets only grow\<close>

lemma grows_refl: "grows s s"
  by (simp add: grows_def)

lemma grows_trans [trans]: "grows s t \<Longrightarrow> grows t u \<Longrightarrow> grows s u"
  by (auto simp: grows_def)

lemma grows_mark_safe: "grows s (AI_mark_safe s c)"
  by (auto simp: grows_def AI_mark_safe_def)

lemma grows_mark_mine: "grows s (AI_mark_mine s c)"
  by (auto simp: grows_def AI_mark_mine_def)

lemma grows_fold_mark_safe: "grows s (fold (\<lambda>safe s. AI_mark_safe s safe) xs s)"
proof (induction xs arbitrary: s)
  case Nil
  show ?case
    by (simp add: grows_refl)
next
  case (Cons x xs)
  from grows_trans [OF grows_mark_safe Cons] show ?case
    by simp
qed

lemma grows_fold_mark_mine: "grows s (fold (\<lambda>mine s. AI_mark_mine s mine) xs s)"
proof (induction xs arbitrary: s)
  case Nil
  show ?case
    by (simp add: grows_refl)
next
  case (Cons x xs)
  from grows_trans [OF grows_mark_mine Cons] show ?case
    by simp
qed

lemma grows_knowledge: "grows s (s\<lparr>knowledge := k\<rparr>)"
  by (simp add: grows_def)

lemma grows_update_knowledge: "grows s (update_knowledge s)"
proof -
  obtain safesL minesL newSafes where w: "update_knowledge_while True s ({||}, {||}, {||}) = (safesL, minesL, newSafes)"
    by (cases "update_knowledge_while True s ({||}, {||}, {||})")
  define s1 where "s1 = (if newSafes \<noteq> {||}
      then fold (\<lambda>safe s. AI_mark_safe s safe) (sorted_list_of_fset newSafes) s else s)"
  define s2 where "s2 = (if minesL |-| mines s1 \<noteq> {||}
      then fold (\<lambda>mine s. AI_mark_mine s mine) (sorted_list_of_fset (minesL |-| mines s1)) s1 else s1)"
  have 1: "grows s s1"
    by (simp add: s1_def grows_refl grows_fold_mark_safe)
  have 2: "grows s1 s2"
    by (simp add: s2_def grows_refl grows_fold_mark_mine)
  have "update_knowledge s = s2\<lparr>knowledge := filter (\<lambda>sentence. fcard (cells sentence) > 0) (knowledge s2)\<rparr>"
    by (simp add: update_knowledge_def w Let_def s2_def s1_def)
  with grows_trans [OF grows_trans [OF 1 2] grows_knowledge] show ?thesis
    by simp
qed

lemma grows_addNewStement: "grows s (addNewStement s c n)"
  by (simp add: addNewStement_def grows_def split: prod.splits)

lemma grows_checkNewStement: "grows s (checkNewStement s)"
  by (simp add: checkNewStement_def grows_def Let_def)

lemma grows_add_knowledge: "grows s (add_knowledge s c n)"
proof -
  define s1 where "s1 = s\<lparr>moves_made := finsert c (moves_made s)\<rparr>"
  define s2 where "s2 = AI_mark_safe s1 c"
  define s3 where "s3 = addNewStement s2 c n"
  define s4 where "s4 = update_knowledge s3"
  define s5 where "s5 = checkNewStement s4"
  have "grows s s1"
    by (auto simp: grows_def s1_def)
  also have "grows s1 s2"
    unfolding s2_def by (rule grows_mark_safe)
  also have "grows s2 s3"
    unfolding s3_def by (rule grows_addNewStement)
  also have "grows s3 s4"
    unfolding s4_def by (rule grows_update_knowledge)
  also have "grows s4 s5"
    unfolding s5_def by (rule grows_checkNewStement)
  also have "grows s5 (update_knowledge s5)"
    by (rule grows_update_knowledge)
  finally show ?thesis
    by (simp add: add_knowledge_def Let_def s1_def s2_def s3_def s4_def s5_def)
qed

lemma grows_fold_observe: "grows s (fold observe obs s)"
proof (induction obs arbitrary: s)
  case Nil
  show ?case
    by (simp add: grows_refl)
next
  case (Cons ob obs)
  have "grows s (observe ob s)"
    unfolding observe_def by (rule grows_add_knowledge)
  from grows_trans [OF this Cons] show ?case
    by simp
qed

subsection \<open>The new sentence of an observation\<close>

lemma addNewStement_body_eq:
  "addNewStement_body s c d (acc, cnt) =
     (if d = (0, 0) then (acc, cnt)
      else if shift c d |\<in>| safes s then (acc, cnt)
      else if shift c d |\<in>| mines s then (acc, cnt - 1)
      else if in_grid s (shift c d) then (finsert (shift c d) acc, cnt)
      else (acc, cnt))"
  by (cases c, cases d) (simp add: addNewStement_body_def in_grid_def shift_def)

lemma fold_addNewStement_body_snd:
  "snd (fold (addNewStement_body s c) ds (acc, cnt)) =
     cnt - int (length (filter (\<lambda>x. x |\<notin>| safes s \<and> x |\<in>| mines s)
                          (map (shift c) (filter (\<lambda>d. d \<noteq> (0, 0)) ds))))"
proof (induction ds arbitrary: acc cnt)
  case Nil
  show ?case
    by simp
next
  case (Cons d ds)
  show ?case
    by (simp add: addNewStement_body_eq Cons)
qed

lemma fold_addNewStement_body_fst:
  "x |\<in>| fst (fold (addNewStement_body s c) ds (acc, cnt)) \<longleftrightarrow>
     x |\<in>| acc \<or> (x \<in> set (map (shift c) (filter (\<lambda>d. d \<noteq> (0, 0)) ds))
                    \<and> x |\<notin>| safes s \<and> x |\<notin>| mines s \<and> in_grid s x)"
proof (induction ds arbitrary: acc cnt)
  case Nil
  show ?case
    by simp
next
  case (Cons d ds)
  show ?case
    by (auto simp: addNewStement_body_eq Cons)
qed

lemma neighbours_shift: "neighbours c = map (shift c) (filter (\<lambda>d. d \<noteq> (0, 0)) offsets)"
  by (simp add: neighbours_def shift_def)

lemma addNewStement_eq:
  "addNewStement s c n =
     s\<lparr>knowledge := knowledge s @
        [Sentence
          (fset_of_list (filter (\<lambda>x. x |\<notin>| safes s \<and> x |\<notin>| mines s \<and> in_grid s x) (neighbours c)))
          (n - int (length (filter (\<lambda>x. x |\<notin>| safes s \<and> x |\<in>| mines s) (neighbours c))))]\<rparr>"
proof -
  obtain cs k where f: "fold (addNewStement_body s c) offsets ({||}, n) = (cs, k)"
    by (cases "fold (addNewStement_body s c) offsets ({||}, n)")
  from fold_addNewStement_body_snd [of s c offsets "{||}" n] f
  have k: "k = n - int (length (filter (\<lambda>x. x |\<notin>| safes s \<and> x |\<in>| mines s) (neighbours c)))"
    by (simp add: neighbours_shift)
  have "x |\<in>| cs \<longleftrightarrow> x |\<in>| fset_of_list (filter (\<lambda>x. x |\<notin>| safes s \<and> x |\<notin>| mines s \<and> in_grid s x) (neighbours c))" for x
    using fold_addNewStement_body_fst [of x s c offsets "{||}" n] f
    by (auto simp: neighbours_shift fset_of_list.rep_eq)
  then have "cs = fset_of_list (filter (\<lambda>x. x |\<notin>| safes s \<and> x |\<notin>| mines s \<and> in_grid s x) (neighbours c))"
    by blast
  with k f show ?thesis
    by (simp add: addNewStement_def)
qed

lemma fcard_fset_of_list_distinct: "distinct xs \<Longrightarrow> fcard (fset_of_list xs) = length xs"
  by (simp add: fcard.rep_eq fset_of_list.rep_eq distinct_card)

lemma ffilter_fset_of_list: "ffilter P (fset_of_list xs) = fset_of_list (filter P xs)"
proof (rule fset_eqI)
  fix x
  show "x |\<in>| ffilter P (fset_of_list xs) \<longleftrightarrow> x |\<in>| fset_of_list (filter P xs)"
    by (simp add: fset_of_list.rep_eq)
qed

lemma length_filter_split:
  "length (filter P xs) = length (filter (\<lambda>x. P x \<and> Q x) xs) + length (filter (\<lambda>x. P x \<and> \<not> Q x) xs)"
  by (induction xs) simp_all

lemma sound_addNewStement:
  assumes snd: "sound g s"
    and cov: "g_height g \<le> width s" "g_width g \<le> height s"
    and n: "n = nearby_mines g c"
  shows "sound g (addNewStement s c n)"
proof -
  let ?L = "neighbours c"
  let ?keep = "\<lambda>x. x |\<notin>| safes s \<and> x |\<notin>| mines s \<and> in_grid s x"
  let ?dec = "\<lambda>x. x |\<notin>| safes s \<and> x |\<in>| mines s"
  from snd have m: "hazard g x" if "x |\<in>| mines s" for x
    using that unfolding sound_def by blast
  from snd have sf: "\<not> hazard g x" if "x |\<in>| safes s" for x
    using that unfolding sound_def by blast
  have grid: "in_grid s x" if "hazard g x" for x
    using that cov by (simp add: hazard_def in_grid_def)
  have "(hazard g x \<and> ?keep x) = (hazard g x \<and> \<not> x |\<in>| mines s)" for x
    using sf [of x] grid [of x] by blast
  then have a: "filter (hazard g) (filter ?keep ?L) = filter (\<lambda>x. hazard g x \<and> \<not> x |\<in>| mines s) ?L"
    by (simp add: conj_commute)
  have "?dec x = (hazard g x \<and> x |\<in>| mines s)" for x
    using sf [of x] m [of x] by blast
  then have b: "filter ?dec ?L = filter (\<lambda>x. hazard g x \<and> x |\<in>| mines s) ?L"
    by simp
  have d: "distinct (filter (\<lambda>x. hazard g x \<and> \<not> x |\<in>| mines s) ?L)"
    by (simp add: distinct_neighbours)
  have "int (fcard (ffilter (hazard g) (fset_of_list (filter ?keep ?L))))
      = int (length (filter (\<lambda>x. hazard g x \<and> \<not> x |\<in>| mines s) ?L))"
    unfolding ffilter_fset_of_list a fcard_fset_of_list_distinct [OF d] ..
  also have "\<dots> = n - int (length (filter ?dec ?L))"
    unfolding b n nearby_mines_neighbours
    using length_filter_split [of "hazard g" ?L "\<lambda>x. x |\<in>| mines s"] by linarith
  finally have "sentence_true g (Sentence (fset_of_list (filter ?keep ?L)) (n - int (length (filter ?dec ?L))))"
    by (simp add: sentence_true_def Sentence_def)
  with snd show ?thesis
    by (simp add: addNewStement_eq sound_def)
qed

subsection \<open>Sentences inferred from subsets\<close>

lemma fold_invariant:
  assumes "P acc" "\<And>x acc. x \<in> set xs \<Longrightarrow> P acc \<Longrightarrow> P (f x acc)"
  shows "P (fold f xs acc)"
  using assms by (induction xs arbitrary: acc) simp_all

lemma sentence_true_difference:
  assumes "sentence_true g a" "sentence_true g b" "cells a |\<subseteq>| cells b"
  shows "sentence_true g (Sentence (cells b |-| cells a) (count b - count a))"
proof -
  have sub: "ffilter (hazard g) (cells a) |\<subseteq>| ffilter (hazard g) (cells b)"
    using assms(3) by auto
  have "ffilter (hazard g) (cells b |-| cells a) = ffilter (hazard g) (cells b) |-| ffilter (hazard g) (cells a)"
    by auto
  then have "fcard (ffilter (hazard g) (cells b |-| cells a))
      = fcard (ffilter (hazard g) (cells b)) - fcard (ffilter (hazard g) (cells a))"
    by (simp add: fcard_funion_fsubset [OF sub])
  moreover from sub have "fcard (ffilter (hazard g) (cells a)) \<le> fcard (ffilter (hazard g) (cells b))"
    by (rule fcard_mono)
  ultimately show ?thesis
    using assms(1,2) by (simp add: sentence_true_def Sentence_def)
qed

lemma checkNewStement_body_true:
  assumes "sentence_true g (snd p)" "sentence_true g (snd q)" "list_all (sentence_true g) acc"
  shows "list_all (sentence_true g) (checkNewStement_body kb p q acc)"
proof -
  obtain i a where p: "p = (i, a)"
    by (cases p)
  obtain j b where q: "q = (j, b)"
    by (cases q)
  from assms sentence_true_difference [of g a b] show ?thesis
    by (simp add: checkNewStement_body_def p q Let_def)
qed

lemma sound_checkNewStement:
  assumes "sound g s"
  shows "sound g (checkNewStement s)"
proof -
  let ?kb = "knowledge s"
  let ?en = "enumerate 0 ?kb"
  from assms have kb: "\<And>p. p \<in> set ?en \<Longrightarrow> sentence_true g (snd p)"
    by (auto simp: sound_def list_all_iff in_set_enumerate_eq)
  have "list_all (sentence_true g)
      (fold (\<lambda>p acc. fold (\<lambda>q acc'. checkNewStement_body ?kb p q acc') ?en acc) ?en [])"
  proof (rule fold_invariant)
    show "list_all (sentence_true g) []"
      by simp
  next
    fix p acc
    assume p: "p \<in> set ?en" and acc: "list_all (sentence_true g) acc"
    show "list_all (sentence_true g) (fold (\<lambda>q acc'. checkNewStement_body ?kb p q acc') ?en acc)"
    proof (rule fold_invariant)
      show "list_all (sentence_true g) acc"
        by (rule acc)
    next
      fix q acc'
      assume "q \<in> set ?en" "list_all (sentence_true g) acc'"
      with p show "list_all (sentence_true g) (checkNewStement_body ?kb p q acc')"
        by (simp add: checkNewStement_body_true kb)
    qed
  qed
  with assms show ?thesis
    by (simp add: checkNewStement_def Let_def sound_def)
qed

subsection \<open>add_knowledge\<close>

lemma sound_add_knowledge:
  assumes "sound g s" "g_height g \<le> width s" "g_width g \<le> height s" "truthful g (c, n)"
  shows "sound g (add_knowledge s c n)"
proof -
  define s1 where "s1 = s\<lparr>moves_made := finsert c (moves_made s)\<rparr>"
  define s2 where "s2 = AI_mark_safe s1 c"
  from assms(4) have c: "\<not> hazard g c" and n: "n = nearby_mines g c"
    by (simp_all add: truthful_def)
  from assms(1) have "sound g s1"
    by (simp add: s1_def sound_moves_made)
  with c have 2: "sound g s2"
    by (simp add: s2_def sound_mark_safe)
  have "width s2 = width s" "height s2 = height s"
    by (simp_all add: s2_def s1_def AI_mark_safe_def)
  with 2 assms(2,3) n have "sound g (addNewStement s2 c n)"
    by (simp add: sound_addNewStement)
  then have "sound g (update_knowledge (checkNewStement (update_knowledge (addNewStement s2 c n))))"
    by (intro sound_update_knowledge sound_checkNewStement)
  then show ?thesis
    by (simp add: add_knowledge_def Let_def s2_def s1_def)
qed

lemma sound_fold_observe:
  assumes "sound g s" "g_height g \<le> width s" "g_width g \<le> height s" "\<forall>ob\<in>set obs. truthful g ob"
  shows "sound g (fold observe obs s)"
  using assms
proof (induction obs arbitrary: s)
  case Nil
  then show ?case
    by simp
next
  case (Cons ob obs)
  from Cons.prems have t: "truthful g (fst ob, snd ob)"
    by simp
  have 1: "sound g (observe ob s)"
    unfolding observe_def by (rule sound_add_knowledge [OF Cons.prems(1-3) t])
  from grows_add_knowledge [of s "fst ob" "snd ob"]
  have 2: "width (observe ob s) = width s" "height (observe ob s) = height s"
    by (simp_all add: observe_def grows_def)
  from Cons.prems have 3: "\<forall>ob\<in>set obs. truthful g ob"
    by simp
  from Cons.IH [of "observe ob s"] 1 2 3 Cons.prems(2,3) show ?case
    by simp
qed

lemma sound_initial: "sound g (MinesweeperAI h w)"
  by (simp add: sound_def MinesweeperAI_def)

lemma sound_disjoint:
  assumes "sound g s"
  shows "safes s |\<inter>| mines s = {||}"
proof (rule fset_eqI)
  fix x
  from assms have "\<not> (x |\<in>| safes s \<and> x |\<in>| mines s)"
    unfolding sound_def by blast
  then show "x |\<in>| safes s |\<inter>| mines s \<longleftrightarrow> x |\<in>| {||}"
    by simp
qed

text \<open>A true sentence has a count between zero and the number of its cells.\<close>

lemma sentence_true_bounds:
  assumes "sentence_true g k"
  shows "0 \<le> count k \<and> count k \<le> int (fcard (cells k))"
proof -
  have "ffilter (hazard g) (cells k) |\<subseteq>| cells k"
    by auto
  then have "fcard (ffilter (hazard g) (cells k)) \<le> fcard (cells k)"
    by (rule fcard_mono)
  with assms show ?thesis
    by (simp add: sentence_true_def)
qed

text \<open>
  Through any sequence of observations the sets \<open>moves_made\<close>, \<open>safes\<close> and
  \<open>mines\<close> only grow. Where the bounds test of \<open>addNewStement\<close> agrees with the
  board's, that is on a square grid, truthful observations keep \<open>safes\<close> and
  \<open>mines\<close> disjoint.
\<close>

theorem add_knowledge_grows_disjoint:
  "moves_made s |\<subseteq>| moves_made (fold observe obs s)
   \<and> safes s |\<subseteq>| safes (fold observe obs s)
   \<and> mines s |\<subseteq>| mines (fold observe obs s)
   \<and> (g_height g = h \<and> g_width g = h \<and> list_all (truthful g) obs \<longrightarrow>
        safes (fold observe obs (MinesweeperAI h h)) |\<inter>| mines (fold observe obs (MinesweeperAI h h)) = {||})"
proof -
  from grows_fold_observe [of s obs]
  have "moves_made s |\<subseteq>| moves_made (fold observe obs s)"
    "safes s |\<subseteq>| safes (fold observe obs s)" "mines s |\<subseteq>| mines (fold observe obs s)"
    by (simp_all add: grows_def)
  moreover have "safes (fold observe obs (MinesweeperAI h h)) |\<inter>| mines (fold observe obs (MinesweeperAI h h)) = {||}"
    if g: "g_height g = h" "g_width g = h" and t: "list_all (truthful g) obs"
  proof -
    have "sound g (fold observe obs (MinesweeperAI h h))"
    proof (rule sound_fold_observe)
      show "sound g (MinesweeperAI h h)"
        by (rule sound_initial)
      show "g_height g \<le> width (MinesweeperAI h h)" "g_width g \<le> height (MinesweeperAI h h)"
        by (simp_all add: g MinesweeperAI_def)
      show "\<forall>ob\<in>set obs. truthful g ob"
        using t by (simp add: list_all_iff)
    qed
    then show ?thesis
      by (rule sound_disjoint)
  qed
  ultimately show ?thesis
    by blast
qed

theorem add_knowledge_grows_disjoint_witness:
  "g_height \<lparr>g_height = 3, g_width = 3, board = (\<lambda>i j. i = 0 \<and> j = 0)\<rparr> = 3
   \<and> g_width \<lparr>g_height = 3, g_width = 3, board = (\<lambda>i j. i = 0 \<and> j = 0)\<rparr> = 3
   \<and> list_all (truthful \<lparr>g_height = 3, g_width = 3, board = (\<lambda>i j. i = 0 \<and> j = 0)\<rparr>)
        [((0, 1), 1), ((1, 0), 1), ((1, 1), 1), ((2, 2), 0)]
   \<and> mines (fold observe [((0, 1), 1), ((1, 0), 1), ((1, 1), 1), ((2, 2), 0)] (MinesweeperAI 3 3)) = {|(0, 0)|}
   \<and> safes (fold observe [((0, 1), 1), ((1, 0), 1), ((1, 1), 1), ((2, 2), 0)] (MinesweeperAI 3 3))
       |\<inter>| mines (fold observe [((0, 1), 1), ((1, 0), 1), ((1, 1), 1), ((2, 2), 0)] (MinesweeperAI 3 3)) = {||}
   \<and> moves_made (MinesweeperAI 3 3)
       |\<subseteq>| moves_made (fold observe [((0, 1), 1), ((1, 0), 1), ((1, 1), 1), ((2, 2), 0)] (MinesweeperAI 3 3))"
proof -
  let ?g = "\<lparr>g_height = 3, g_width = 3, board = (\<lambda>i j. i = 0 \<and> j = 0)\<rparr>"
  let ?obs = "[((0, 1), 1), ((1, 0), 1), ((1, 1), 1), ((2, 2), 0)]"
  have h: "g_height ?g = 3" "g_width ?g = 3"
    by simp_all
  have t: "list_all (truthful ?g) ?obs"
    by code_simp
  have m: "mines (fold observe ?obs (MinesweeperAI 3 3)) = {|(0, 0)|}"
    by code_simp
  from add_knowledge_grows_disjoint [of "MinesweeperAI 3 3" ?obs ?g 3] h t m show ?thesis
    by blast
qed

text \<open>
  Without truthful observations the two sets can overlap: on a 2 by 2 grid the
  observation \<open>((0, 0), 2)\<close> leaves \<open>{(0, 1), (1, 0), (1, 1)} = 2\<close>; the observation
  \<open>((0, 1), 0)\<close> turns it into \<open>{(1, 0), (1, 1)} = 2\<close> and adds
  \<open>{(1, 0), (1, 1)} = 0\<close>, and one scan of \<open>update_knowledge\<close> marks both cells safe
  and both cells mines.
\<close>

theorem safes_mines_overlap:
  "(1, 0) |\<in>| safes (add_knowledge (add_knowledge (MinesweeperAI 2 2) (0, 0) 2) (0, 1) 0)
   \<and> (1, 0) |\<in>| mines (add_knowledge (add_knowledge (MinesweeperAI 2 2) (0, 0) 2) (0, 1) 0)"
  by code_simp

end
